theory Spec2Isabelle
  imports Main
begin

section \<open>Paths, file items and the item map\<close>

text \<open>
  A shallow embedding of \<^verbatim>\<open>src/providers/PromptTowerProvider.ts\<close>: the selection tree
  (\<^verbatim>\<open>getChildren\<close>, \<^verbatim>\<open>toggleCheck\<close>, \<^verbatim>\<open>toggleDirectoryChildren\<close>, \<^verbatim>\<open>toggleAllFiles\<close>),
  the debounced token recount (\<^verbatim>\<open>debouncedUpdateTokenCount\<close>, \<^verbatim>\<open>updateTokenCount\<close>) and the
  block renderer of \<^verbatim>\<open>generateFile\<close>.

  Paths are strings. \<^verbatim>\<open>path.join(dir, name)\<close> is modelled for a normalised directory path
  and a plain entry name, where it is the two joined by one separator.
\<close>

type_synonym path = string

definition path_join :: "path \<Rightarrow> string \<Rightarrow> path" where
  "path_join dir name = dir @ ''/'' @ name"

text \<open>
  Modelled from the spec: \<^verbatim>\<open>models/FileItem.ts\<close> is not among the sources. The spec's Node
  has a path, a kind (file or directory), a checked flag and a display name; the provider
  builds one with \<^verbatim>\<open>new FileItem(label, collapsibleState, filePath, isChecked)\<close>, reads
  \<^verbatim>\<open>contextValue\<close> (\<^verbatim>\<open>"file"\<close> or \<^verbatim>\<open>"folder"\<close>) and flips the flag with \<^verbatim>\<open>updateCheckState\<close>.
  The field \<open>collapsible\<close> is \<^verbatim>\<open>collapsibleState !== None\<close>, which the provider sets exactly
  for directories.
\<close>

record FileItem =
  label :: string
  collapsible :: bool
  filePath :: path
  isChecked :: bool

definition newFileItem :: "string \<Rightarrow> bool \<Rightarrow> path \<Rightarrow> bool \<Rightarrow> FileItem" where
  "newFileItem l c p b = \<lparr>label = l, collapsible = c, filePath = p, isChecked = b\<rparr>"

definition contextValue :: "FileItem \<Rightarrow> string" where
  "contextValue it = (if collapsible it then ''folder'' else ''file'')"


text \<open>
  \<^verbatim>\<open>items = new Map<string, FileItem>()\<close>. A JavaScript Map iterates in insertion order and
  \<^verbatim>\<open>set\<close> on a present key keeps the key's position, so the map is an association list with
  at most one pair per key.
\<close>

type_synonym itemMap = "(path \<times> FileItem) list"

definition items_get :: "itemMap \<Rightarrow> path \<Rightarrow> FileItem option" where
  "items_get m k = map_of m k"

fun items_set :: "itemMap \<Rightarrow> path \<Rightarrow> FileItem \<Rightarrow> itemMap" where
  "items_set [] k v = [(k, v)]"
| "items_set ((k', v') # m) k v =
     (if k' = k then (k, v) # m else (k', v') # items_set m k v)"

definition items_delete :: "itemMap \<Rightarrow> path \<Rightarrow> itemMap" where
  "items_delete m k = filter (\<lambda>kv. fst kv \<noteq> k) m"

definition items_values :: "itemMap \<Rightarrow> FileItem list" where
  "items_values m = map snd m"

section \<open>The environment: file system probes, tokenizer, timers, emitter\<close>

datatype fserr = ENOENT | EACCES | EPERM | EIO

text \<open>
  What \<^verbatim>\<open>fs.existsSync\<close> and \<^verbatim>\<open>fs.promises.readFile\<close> answer at one instant. Every resumption
  of an asynchronous function is given the view of that instant, so the file system may
  change between suspension points.
\<close>

record fsview =
  existsSync :: "path \<Rightarrow> bool"
  readFile :: "path \<Rightarrow> fserr + string"

text \<open>
  \<^verbatim>\<open>encode\<close> of gpt-tokenizer: the token list, or \<open>None\<close> when it throws (for instance on an
  input that is too large).
\<close>

type_synonym tokenizer = "string \<Rightarrow> nat list option"

record TokenUpdatePayload =
  count :: nat
  isCounting :: bool

text \<open>
  The provider's fields, followed by the part of the environment its methods act on:
  \<open>armed\<close> are the timeouts pending in the event loop (handle and delay), \<open>nextHandle\<close> the
  next fresh handle of \<^verbatim>\<open>setTimeout\<close>, \<open>emitted\<close> the payloads fired on the
  \<^verbatim>\<open>tokenUpdateEmitter\<close> (oldest first), \<open>readCalls\<close> the \<^verbatim>\<open>readFile\<close> calls the recount has
  issued. The version counter is a JavaScript number; it is exact below \<open>2^53\<close> and is
  modelled as a natural number.
\<close>

record provider =
  items :: itemMap
  totalTokenCount :: nat
  isCountingTokens :: bool
  currentTokenCalculationVersion :: nat
  debounceTimeout :: "nat option"
  armed :: "(nat \<times> nat) list"
  nextHandle :: nat
  emitted :: "TokenUpdatePayload list"
  readCalls :: "path list"

definition notifyTokenUpdate :: "provider \<Rightarrow> provider" where
  "notifyTokenUpdate p =
     p\<lparr>emitted := emitted p @ [\<lparr>count = totalTokenCount p, isCounting = isCountingTokens p\<rparr>]\<rparr>"

definition clearTimeout :: "nat \<Rightarrow> provider \<Rightarrow> provider" where
  "clearTimeout h p = p\<lparr>armed := filter (\<lambda>t. fst t \<noteq> h) (armed p)\<rparr>"

definition setTimeout :: "nat \<Rightarrow> provider \<Rightarrow> nat \<times> provider" where
  "setTimeout delay p =
     (nextHandle p, p\<lparr>armed := armed p @ [(nextHandle p, delay)], nextHandle := Suc (nextHandle p)\<rparr>)"

definition debouncedUpdateTokenCount :: "nat \<Rightarrow> provider \<Rightarrow> provider" where
  "debouncedUpdateTokenCount delay p =
     (let p1 = (case debounceTimeout p of Some h \<Rightarrow> clearTimeout h p | None \<Rightarrow> p);
          p2 = p1\<lparr>currentTokenCalculationVersion := Suc (currentTokenCalculationVersion p1)\<rparr>;
          (h, p3) = setTimeout delay p2
      in p3\<lparr>debounceTimeout := Some h\<rparr>)"

definition getCheckedFiles :: "fsview \<Rightarrow> itemMap \<Rightarrow> path list" where
  "getCheckedFiles fsv m =
     map filePath
       (filter (\<lambda>it. isChecked it \<and> contextValue it = ''file'' \<and> existsSync fsv (filePath it))
          (items_values m))"

section \<open>One recount: \<^verbatim>\<open>updateTokenCount\<close> between its suspension points\<close>

text \<open>
  \<^verbatim>\<open>updateTokenCount\<close> is asynchronous. It suspends at \<^verbatim>\<open>await readFile\<close> (once per existing
  file) and at the \<^verbatim>\<open>setImmediate\<close> yield after every 50 counted files; everything between
  two suspensions runs without interruption. A \<open>run\<close> holds the locals of one call, the
  \<open>phase\<close> says where it is suspended.
\<close>

datatype phase = AwaitRead path | AwaitYield | Finished

record run =
  calculationVersion :: nat
  checkedFiles :: "path list"
  remaining :: "path list"
  runningTokenCount :: nat
  filesProcessed :: nat
  phase :: phase

text \<open>The \<^verbatim>\<open>finally\<close> block: the final notification, for the latest calculation only.\<close>

definition finallyBlock :: "provider \<Rightarrow> run \<Rightarrow> provider \<times> run" where
  "finallyBlock p r =
     ((if calculationVersion r = currentTokenCalculationVersion p
       then notifyTokenUpdate (p\<lparr>isCountingTokens := False\<rparr>) else p),
      r\<lparr>phase := Finished\<rparr>)"

text \<open>After the loop: the final cancellation check, then the final state.\<close>

definition afterLoop :: "provider \<Rightarrow> run \<Rightarrow> provider \<times> run" where
  "afterLoop p r =
     (if calculationVersion r \<noteq> currentTokenCalculationVersion p then finallyBlock p r
      else finallyBlock (p\<lparr>totalTokenCount := runningTokenCount r, isCountingTokens := False\<rparr>) r)"

text \<open>
  The head of the \<^verbatim>\<open>for\<close> loop, from the cancellation check to the next \<^verbatim>\<open>readFile\<close>: a
  file that no longer exists is removed from the map and the loop goes on at once.
\<close>

fun forLoop :: "fsview \<Rightarrow> path list \<Rightarrow> provider \<Rightarrow> run \<Rightarrow> provider \<times> run" where
  "forLoop fsv [] p r = afterLoop p (r\<lparr>remaining := []\<rparr>)"
| "forLoop fsv (f # rest) p r =
     (if calculationVersion r \<noteq> currentTokenCalculationVersion p
      then finallyBlock p (r\<lparr>remaining := f # rest\<rparr>)
      else if \<not> existsSync fsv f
      then forLoop fsv rest (p\<lparr>items := items_delete (items p) f\<rparr>) r
      else (p\<lparr>readCalls := readCalls p @ [f]\<rparr>, r\<lparr>remaining := rest, phase := AwaitRead f\<rparr>))"

text \<open>
  The start of a call, up to the first suspension. The version test of the empty branch
  is kept although nothing can run between the capture and the test.
\<close>

definition updateTokenCount :: "fsview \<Rightarrow> provider \<Rightarrow> provider \<times> run" where
  "updateTokenCount fsv p =
     (let r = \<lparr>calculationVersion = currentTokenCalculationVersion p,
                checkedFiles = getCheckedFiles fsv (items p),
                remaining = getCheckedFiles fsv (items p),
                runningTokenCount = 0, filesProcessed = 0, phase = Finished\<rparr>
      in if checkedFiles r = []
         then (if calculationVersion r \<noteq> currentTokenCalculationVersion p then (p, r)
               else (notifyTokenUpdate (p\<lparr>totalTokenCount := 0, isCountingTokens := False\<rparr>), r))
         else forLoop fsv (checkedFiles r) (notifyTokenUpdate (p\<lparr>isCountingTokens := True\<rparr>)) r)"

text \<open>
  Resuming after \<^verbatim>\<open>await readFile\<close>: a rejected read or a throwing \<^verbatim>\<open>encode\<close> lands in the
  inner \<^verbatim>\<open>catch\<close>, which removes the file from the map on \<^verbatim>\<open>ENOENT\<close>, logs otherwise, and
  lets the loop continue.
\<close>

definition resumeRead :: "fsview \<Rightarrow> tokenizer \<Rightarrow> path \<Rightarrow> provider \<Rightarrow> run \<Rightarrow> provider \<times> run" where
  "resumeRead fsv encode f p r =
     (case readFile fsv f of
        Inl e \<Rightarrow>
          (if e = ENOENT then forLoop fsv (remaining r) (p\<lparr>items := items_delete (items p) f\<rparr>) r
           else forLoop fsv (remaining r) p r)
      | Inr content \<Rightarrow>
          (case encode content of
             None \<Rightarrow> forLoop fsv (remaining r) p r
           | Some tokens \<Rightarrow>
               (let r1 = r\<lparr>runningTokenCount := runningTokenCount r + length tokens,
                           filesProcessed := Suc (filesProcessed r)\<rparr>
                in if filesProcessed r1 mod 50 = 0 then (p, r1\<lparr>phase := AwaitYield\<rparr>)
                   else forLoop fsv (remaining r1) p r1)))"

text \<open>Resuming after the yield: the cancellation check, then the next iteration.\<close>

definition resumeYield :: "fsview \<Rightarrow> provider \<Rightarrow> run \<Rightarrow> provider \<times> run" where
  "resumeYield fsv p r =
     (if calculationVersion r \<noteq> currentTokenCalculationVersion p then finallyBlock p r
      else forLoop fsv (remaining r) p r)"

definition resume :: "fsview \<Rightarrow> tokenizer \<Rightarrow> provider \<Rightarrow> run \<Rightarrow> provider \<times> run" where
  "resume fsv encode p r =
     (case phase r of
        AwaitRead f \<Rightarrow> resumeRead fsv encode f p r
      | AwaitYield \<Rightarrow> resumeYield fsv p r
      | Finished \<Rightarrow> (p, r))"

section \<open>The event loop\<close>

text \<open>
  The provider together with the calls of \<^verbatim>\<open>updateTokenCount\<close> started so far. An event is
  a change of the item map by the selection tree, a call of \<^verbatim>\<open>debouncedUpdateTokenCount\<close>,
  a timeout that fires (its callback starts a recount), or the resumption of a suspended
  recount. Timeouts carry no clock here: a
  timeout is pending from \<^verbatim>\<open>setTimeout\<close> until it fires or is cleared, and the debounce
  window of a call is the stretch of events before its timeout fires.
\<close>

record system =
  prov :: provider
  runs :: "run list"

datatype event =
  Edit "itemMap \<Rightarrow> itemMap" | Invalidate nat | Fire nat fsview | Resume nat fsview

definition fireTimeout :: "nat \<Rightarrow> fsview \<Rightarrow> system \<Rightarrow> system" where
  "fireTimeout h fsv s =
     (if h \<in> fst ` set (armed (prov s))
      then (let (p, r) = updateTokenCount fsv (clearTimeout h (prov s))
            in \<lparr>prov = p, runs = runs s @ [r]\<rparr>)
      else s)"

definition resumeRun :: "tokenizer \<Rightarrow> nat \<Rightarrow> fsview \<Rightarrow> system \<Rightarrow> system" where
  "resumeRun encode i fsv s =
     (if i < length (runs s)
      then (let (p, r) = resume fsv encode (prov s) (runs s ! i)
            in \<lparr>prov = p, runs = (runs s)[i := r]\<rparr>)
      else s)"

fun step :: "tokenizer \<Rightarrow> event \<Rightarrow> system \<Rightarrow> system" where
  "step encode (Edit change) s = s\<lparr>prov := (prov s)\<lparr>items := change (items (prov s))\<rparr>\<rparr>"
| "step encode (Invalidate delay) s = s\<lparr>prov := debouncedUpdateTokenCount delay (prov s)\<rparr>"
| "step encode (Fire h fsv) s = fireTimeout h fsv s"
| "step encode (Resume i fsv) s = resumeRun encode i fsv s"

fun exec :: "tokenizer \<Rightarrow> event list \<Rightarrow> system \<Rightarrow> system" where
  "exec encode [] s = s"
| "exec encode (e # es) s = exec encode es (step encode e s)"

section \<open>\<^verbatim>\<open>toggleAllFiles\<close>\<close>


section \<open>Configuration and the directory tree\<close>

text \<open>The fields that \<^verbatim>\<open>loadConfig\<close> fills, and the workspace root of the constructor.\<close>

record config =
  workspaceRoot :: path
  excludedPatterns :: "string list"
  maxFileSizeWarningKB :: nat
  blockTemplate :: string
  blockSeparator :: string
  outputExtension :: string
  wrapperTemplate :: "string option"

text \<open>
  What \<^verbatim>\<open>readdir(dir, {withFileTypes: true})\<close> finds below a directory: each entry has a
  name and is a regular file, a directory (whose own listing succeeds or throws), or
  something else (a link, a socket). The tree is finite, as a directory tree is.
\<close>

datatype fsnode =
  FileEntry | OtherEntry | DirEntry "(string \<times> fsnode) list" | DirFails fserr


fun entryIsDirectory :: "fsnode \<Rightarrow> bool" where
  "entryIsDirectory (DirEntry es) = True"
| "entryIsDirectory (DirFails e) = True"
| "entryIsDirectory _ = False"

definition endsWith :: "string \<Rightarrow> string \<Rightarrow> bool" where
  "endsWith s suf = (length suf \<le> length s \<and> drop (length s - length suf) s = suf)"

definition matchesPattern :: "string \<Rightarrow> string \<Rightarrow> bool" where
  "matchesPattern fileName pattern =
     (if pattern = [] then False
      else if fileName = pattern then True
      else if last pattern = CHR ''/'' \<and> fileName = butlast pattern then True
      else if take 2 pattern = ''*.'' then endsWith fileName (tl pattern)
      else False)"

definition excluded :: "config \<Rightarrow> string \<Rightarrow> bool" where
  "excluded cfg name = list_ex (matchesPattern name) (excludedPatterns cfg)"



section \<open>\<^verbatim>\<open>toggleDirectoryChildren\<close> and \<^verbatim>\<open>toggleCheck\<close>\<close>




section \<open>\<^verbatim>\<open>getChildren\<close>\<close>

text \<open>
  The loop over the listing; \<open>visitEntry\<close> is its body for an entry that is not excluded. A
  known path gets a new item with the stored flag, a new path an item with the flag of
  the listed parent (unchecked at the root), and a recount is scheduled when a new item
  is checked.
\<close>

definition visitEntry :: "path \<Rightarrow> bool \<Rightarrow> string \<Rightarrow> fsnode \<Rightarrow> provider \<Rightarrow> FileItem \<times> provider" where
  "visitEntry dirPath parentChecked name node p =
     (let fp = path_join dirPath name
      in case items_get (items p) fp of
           None \<Rightarrow>
             (let item = newFileItem name (entryIsDirectory node) fp parentChecked;
                  p0 = p\<lparr>items := items_set (items p) fp item\<rparr>
              in (item, if isChecked item then debouncedUpdateTokenCount 300 p0 else p0))
         | Some old \<Rightarrow>
             (let newItem = newFileItem name (entryIsDirectory node) fp (isChecked old)
              in (newItem, p\<lparr>items := items_set (items p) fp newItem\<rparr>)))"

fun childLoop ::
    "config \<Rightarrow> path \<Rightarrow> bool \<Rightarrow> (string \<times> fsnode) list \<Rightarrow> provider \<Rightarrow> FileItem list \<times> provider" where
  "childLoop cfg dirPath parentChecked [] p = ([], p)"
| "childLoop cfg dirPath parentChecked ((name, node) # entries) p =
     (if excluded cfg name then childLoop cfg dirPath parentChecked entries p
      else
        (case visitEntry dirPath parentChecked name node p of
           (item, p1) \<Rightarrow>
             (case childLoop cfg dirPath parentChecked entries p1 of
                (children, p2) \<Rightarrow> (item # children, p2))))"

text \<open>
  \<^verbatim>\<open>children.sort\<close>: folders before files, then \<^verbatim>\<open>label.localeCompare\<close>, which depends on the
  locale and is a parameter. The sort of the engine is stable; it is modelled by a stable
  insertion sort.
\<close>

definition compareItems :: "(string \<Rightarrow> string \<Rightarrow> int) \<Rightarrow> FileItem \<Rightarrow> FileItem \<Rightarrow> int" where
  "compareItems localeCompare a b =
     (if collapsible a \<noteq> collapsible b then (if collapsible a then - 1 else 1)
      else localeCompare (label a) (label b))"

fun insertBy :: "('a \<Rightarrow> 'a \<Rightarrow> int) \<Rightarrow> 'a \<Rightarrow> 'a list \<Rightarrow> 'a list" where
  "insertBy cmp x [] = [x]"
| "insertBy cmp x (y # ys) = (if cmp x y \<le> 0 then x # y # ys else y # insertBy cmp x ys)"

definition sortBy :: "('a \<Rightarrow> 'a \<Rightarrow> int) \<Rightarrow> 'a list \<Rightarrow> 'a list" where
  "sortBy cmp xs = foldr (insertBy cmp) xs []"

definition removeElement :: "FileItem option \<Rightarrow> provider \<Rightarrow> provider" where
  "removeElement element p =
     (case element of
        None \<Rightarrow> p
      | Some e \<Rightarrow> p\<lparr>items := items_delete (items p) (filePath e)\<rparr>)"

definition getChildren ::
    "config \<Rightarrow> (string \<Rightarrow> string \<Rightarrow> int) \<Rightarrow> fsnode option \<Rightarrow> FileItem option \<Rightarrow> provider
      \<Rightarrow> FileItem list \<times> provider" where
  "getChildren cfg localeCompare node element p =
     (let dirPath = (case element of Some e \<Rightarrow> filePath e | None \<Rightarrow> workspaceRoot cfg);
          parentChecked = (case element of Some e \<Rightarrow> isChecked e | None \<Rightarrow> False)
      in case node of
           Some (DirEntry entries) \<Rightarrow>
             (case childLoop cfg dirPath parentChecked entries p of
                (children, p1) \<Rightarrow> (sortBy (compareItems localeCompare) children, p1))
         | Some (DirFails e) \<Rightarrow> ([], if e = ENOENT then removeElement element p else p)
         | _ \<Rightarrow> ([], removeElement element p))"

section \<open>\<^verbatim>\<open>generateFile\<close>\<close>

text \<open>
  The functions of Node's \<^verbatim>\<open>path\<close> module that \<^verbatim>\<open>generateFile\<close> calls, for POSIX paths that
  are absolute, normalised and do not end in a separator.
\<close>

definition basename :: "path \<Rightarrow> string" where
  "basename p = rev (takeWhile (\<lambda>c. c \<noteq> CHR ''/'') (rev p))"

definition extname :: "path \<Rightarrow> string" where
  "extname p =
     (let b = basename p; e = rev (takeWhile (\<lambda>c. c \<noteq> CHR ''.'') (rev b))
      in if CHR ''.'' \<notin> set b \<or> Suc (length e) = length b \<or> b = ''..'' then []
         else CHR ''.'' # e)"

definition basenameExt :: "path \<Rightarrow> string \<Rightarrow> string" where
  "basenameExt p ext =
     (let b = basename p
      in if ext \<noteq> [] \<and> ext \<noteq> b \<and> endsWith b ext then take (length b - length ext) b else b)"

fun splitOn :: "char \<Rightarrow> string \<Rightarrow> string list" where
  "splitOn sep [] = [[]]"
| "splitOn sep (c # cs) =
     (if c = sep then [] # splitOn sep cs
      else (case splitOn sep cs of [] \<Rightarrow> [[c]] | w # ws \<Rightarrow> (c # w) # ws))"

definition components :: "path \<Rightarrow> string list" where
  "components p = filter (\<lambda>w. w \<noteq> []) (splitOn CHR ''/'' p)"

fun dropCommon :: "string list \<Rightarrow> string list \<Rightarrow> string list \<times> string list" where
  "dropCommon (a # as) (b # bs) = (if a = b then dropCommon as bs else (a # as, b # bs))"
| "dropCommon as bs = (as, bs)"

fun joinWith :: "string \<Rightarrow> string list \<Rightarrow> string" where
  "joinWith sep [] = []"
| "joinWith sep [x] = x"
| "joinWith sep (x # y # ys) = x @ sep @ joinWith sep (y # ys)"

definition path_relative :: "path \<Rightarrow> path \<Rightarrow> path" where
  "path_relative from to =
     (case dropCommon (components from) (components to) of
        (up, down) \<Rightarrow> joinWith ''/'' (replicate (length up) ''..'' @ down))"

text \<open>
  \<^verbatim>\<open>String.prototype.replace\<close> with a global regular expression that matches a fixed text
  and with a replacement \<^emph>\<open>string\<close>. The engine expands the replacement at every match
  (\<^verbatim>\<open>GetSubstitution\<close>): \<^verbatim>\<open>$$\<close> is a dollar sign, \<^verbatim>\<open>$&\<close> the matched text, \<^verbatim>\<open>$`\<close> the text
  before the match and \<^verbatim>\<open>$'\<close> the text after it; since the patterns here have no capture
  group, every other \<^verbatim>\<open>$\<close> stands for itself.
\<close>

fun getSubstitution :: "string \<Rightarrow> string \<Rightarrow> string \<Rightarrow> string \<Rightarrow> string" where
  "getSubstitution matched preceding following [] = []"
| "getSubstitution matched preceding following [c] = [c]"
| "getSubstitution matched preceding following (c # d # rest) =
     (if c = CHR ''$'' \<and> d = CHR ''$'' then CHR ''$'' # getSubstitution matched preceding following rest
      else if c = CHR ''$'' \<and> d = CHR ''&'' then matched @ getSubstitution matched preceding following rest
      else if c = CHR ''$'' \<and> d = CHR 0x60 then preceding @ getSubstitution matched preceding following rest
      else if c = CHR ''$'' \<and> d = CHR 0x27 then following @ getSubstitution matched preceding following rest
      else c # getSubstitution matched preceding following (d # rest))"

function replaceFrom :: "string \<Rightarrow> string \<Rightarrow> string \<Rightarrow> string \<Rightarrow> string" where
  "replaceFrom pat repl preceding [] = []"
| "replaceFrom pat repl preceding (c # cs) =
     (if pat \<noteq> [] \<and> take (length pat) (c # cs) = pat
      then getSubstitution pat preceding (drop (length pat) (c # cs)) repl
           @ replaceFrom pat repl (preceding @ pat) (drop (length pat) (c # cs))
      else c # replaceFrom pat repl (preceding @ [c]) cs)"
  by pat_completeness auto
termination
  by (relation "measure (\<lambda>(pat, repl, preceding, s). length s)") auto

definition replaceAll :: "string \<Rightarrow> string \<Rightarrow> string \<Rightarrow> string" where
  "replaceAll pat repl s = replaceFrom pat repl [] s"

text \<open>The body of the \<^verbatim>\<open>checkedFiles.map\<close> callback after the read: one rendered block.\<close>

definition renderBlock :: "config \<Rightarrow> path \<Rightarrow> string \<Rightarrow> string" where
  "renderBlock cfg fullFilePath fileContent =
     (let relativePath = path_relative (workspaceRoot cfg) fullFilePath;
          fileNameWithExtension = basename fullFilePath;
          fileExtension = extname fullFilePath;
          fileName = basenameExt fullFilePath fileExtension;
          sourcePath = ''/'' @ map (\<lambda>c. if c = CHR 0x5C then CHR ''/'' else c) relativePath;
          b1 = replaceAll ''{fileNameWithExtension}'' fileNameWithExtension (blockTemplate cfg);
          b2 = replaceAll ''{rawFilePath}'' sourcePath b1;
          b3 = replaceAll ''{fileName}'' fileName b2;
          b4 = replaceAll ''{fileExtension}'' fileExtension b3;
          b5 = replaceAll ''{fullPath}'' fullFilePath b4
      in replaceAll ''{fileContent}'' fileContent b5)"

text \<open>
  \<^verbatim>\<open>Promise.all\<close> over the callbacks: the blocks in order, or the rejection of a read. When
  several reads fail the source reports the one that rejects first in time; the model
  reports the first in list order.
\<close>

fun renderAll :: "config \<Rightarrow> fsview \<Rightarrow> path list \<Rightarrow> fserr + string list" where
  "renderAll cfg fsv [] = Inr []"
| "renderAll cfg fsv (f # fs) =
     (case readFile fsv f of
        Inl e \<Rightarrow> Inl e
      | Inr fileContent \<Rightarrow>
          (case renderAll cfg fsv fs of
             Inl e \<Rightarrow> Inl e
           | Inr blocks \<Rightarrow> Inr (renderBlock cfg f fileContent # blocks)))"

fun stringOfNat :: "nat \<Rightarrow> string" where
  "stringOfNat n =
     (if n < 10 then [char_of (48 + n)]
      else stringOfNat (n div 10) @ [char_of (48 + n mod 10)])"

definition applyWrapper :: "config \<Rightarrow> string \<Rightarrow> nat \<Rightarrow> string \<Rightarrow> string \<Rightarrow> string" where
  "applyWrapper cfg timestamp fileCount outputFileNameWithExtension joinedBlocks =
     (case wrapperTemplate cfg of
        None \<Rightarrow> joinedBlocks
      | Some w \<Rightarrow>
          if w = [] then joinedBlocks
          else replaceAll ''{outputFileName}'' outputFileNameWithExtension
                 (replaceAll ''{workspaceRoot}'' (workspaceRoot cfg)
                   (replaceAll ''{fileCount}'' (stringOfNat fileCount)
                     (replaceAll ''{timestamp}'' timestamp
                       (replaceAll ''{blocks}'' joinedBlocks w)))))"

text \<open>
  What a call of \<^verbatim>\<open>generateFile\<close> leaves behind: the warning that nothing is selected, the
  error message of the \<^verbatim>\<open>catch\<close> block, or the output file written in full. \<open>fsv0\<close> is the
  file system when the checked files are collected, \<open>fsv1\<close> when they are read (the input
  box is awaited in between); \<open>nameInput\<close> is what the input box returns, \<open>timestamp\<close> the
  ISO time of the call. A failure of \<^verbatim>\<open>writeFile\<close> itself is not modelled.
\<close>

datatype outcome = NoFilesSelected | ErrorShown fserr | FileWritten path string

definition generateFile ::
    "config \<Rightarrow> string \<Rightarrow> string option \<Rightarrow> fsview \<Rightarrow> fsview \<Rightarrow> provider \<Rightarrow> outcome" where
  "generateFile cfg timestamp nameInput fsv0 fsv1 p =
     (let checkedFiles = getCheckedFiles fsv0 (items p)
      in if checkedFiles = [] then NoFilesSelected
         else
           (let fileNameRaw =
                  (case nameInput of None \<Rightarrow> ''context''
                   | Some n \<Rightarrow> if n = [] then ''context'' else n);
                outputFileNameWithExtension = fileNameRaw @ ''.'' @ outputExtension cfg;
                outputPath = path_join (workspaceRoot cfg) outputFileNameWithExtension
            in case renderAll cfg fsv1 checkedFiles of
                 Inl e \<Rightarrow> ErrorShown e
               | Inr contents \<Rightarrow>
                   FileWritten outputPath
                     (applyWrapper cfg timestamp (length checkedFiles)
                        outputFileNameWithExtension
                        (joinWith (blockSeparator cfg) contents))))"

section \<open>Vocabulary of the statements\<close>

text \<open>
  A burst of selection changes: only edits of the item map and calls of
  \<^verbatim>\<open>debouncedUpdateTokenCount\<close>, no timeout fires in between. \<open>applyEdits\<close> is the item map
  at the end of the burst.
\<close>

fun isSelectionEvent :: "event \<Rightarrow> bool" where
  "isSelectionEvent (Edit change) = True"
| "isSelectionEvent (Invalidate delay) = True"
| "isSelectionEvent _ = False"

fun isInvalidate :: "event \<Rightarrow> bool" where
  "isInvalidate (Invalidate delay) = True"
| "isInvalidate _ = False"

fun applyEdits :: "event list \<Rightarrow> itemMap \<Rightarrow> itemMap" where
  "applyEdits [] m = m"
| "applyEdits (Edit change # es) m = applyEdits es (change m)"
| "applyEdits (e # es) m = applyEdits es m"

text \<open>
  The provider arms timeouts only in \<^verbatim>\<open>debouncedUpdateTokenCount\<close>, which clears the one it
  armed before: every pending timeout is the one \<open>debounceTimeout\<close> refers to.
\<close>

definition onlyDebounceArmed :: "provider \<Rightarrow> bool" where
  "onlyDebounceArmed p = (\<forall>t \<in> set (armed p). debounceTimeout p = Some (fst t))"

definition oneArmed :: "provider \<Rightarrow> bool" where
  "oneArmed p = (case armed p of [t] \<Rightarrow> debounceTimeout p = Some (fst t) | _ \<Rightarrow> False)"

text \<open>
  A system the event loop can reach: at most one timeout is pending, the recounts started
  so far captured a version that is not ahead of the counter, and while a timeout is
  pending all of them are behind it (the call that armed the timeout incremented the
  counter, and no recount has started since).
\<close>

definition wellFormed :: "system \<Rightarrow> bool" where
  "wellFormed s =
     (onlyDebounceArmed (prov s)
      \<and> length (armed (prov s)) \<le> 1
      \<and> (\<forall>r \<in> set (runs s). calculationVersion r \<le> currentTokenCalculationVersion (prov s))
      \<and> (armed (prov s) \<noteq> [] \<longrightarrow>
           (\<forall>r \<in> set (runs s). calculationVersion r < currentTokenCalculationVersion (prov s))))"

fun noInvalidate :: "event \<Rightarrow> bool" where
  "noInvalidate (Invalidate delay) = False"
| "noInvalidate _ = True"


text \<open>
  The two stages of a system in which a debounce timeout is pending, \<open>p0\<close> being the
  provider and \<open>n\<close> the number of recounts at that moment: \<open>awaitingFire\<close> while the
  timeout is pending, \<open>started\<close> once it has fired and the recount \<open>n\<close> runs or has
  finished.
\<close>

definition awaitingFire :: "provider \<Rightarrow> nat \<Rightarrow> system \<Rightarrow> bool" where
  "awaitingFire p0 n s =
     (currentTokenCalculationVersion (prov s) = currentTokenCalculationVersion p0
      \<and> length (runs s) = n
      \<and> list_all (\<lambda>r. calculationVersion r < currentTokenCalculationVersion p0) (runs s)
      \<and> oneArmed (prov s)
      \<and> emitted (prov s) = emitted p0
      \<and> totalTokenCount (prov s) = totalTokenCount p0)"

definition started :: "provider \<Rightarrow> nat \<Rightarrow> system \<Rightarrow> bool" where
  "started p0 n s =
     (currentTokenCalculationVersion (prov s) = currentTokenCalculationVersion p0
      \<and> length (runs s) = Suc n
      \<and> list_all (\<lambda>r. calculationVersion r < currentTokenCalculationVersion p0)
           (take n (runs s))
      \<and> armed (prov s) = []
      \<and> calculationVersion (runs s ! n) = currentTokenCalculationVersion p0
      \<and> (if phase (runs s ! n) = Finished
          then totalTokenCount (prov s) = runningTokenCount (runs s ! n)
               \<and> \<not> isCountingTokens (prov s)
               \<and> emitted (prov s)
                   = emitted p0
                     @ (if checkedFiles (runs s ! n) = [] then []
                        else [\<lparr>count = totalTokenCount p0, isCounting = True\<rparr>])
                     @ [\<lparr>count = runningTokenCount (runs s ! n), isCounting = False\<rparr>]
          else totalTokenCount (prov s) = totalTokenCount p0
               \<and> isCountingTokens (prov s)
               \<and> checkedFiles (runs s ! n) \<noteq> []
               \<and> emitted (prov s)
                     = emitted p0 @ [\<lparr>count = totalTokenCount p0, isCounting = True\<rparr>]))"




text \<open>
  A view in which the files \<open>fl\<close> exist and read as they do in \<open>fsv\<close>, and the events of a
  stretch without a call of \<^verbatim>\<open>debouncedUpdateTokenCount\<close> in which every resumption sees
  such a view.
\<close>

definition fileFails :: "fsview \<Rightarrow> tokenizer \<Rightarrow> path \<Rightarrow> bool" where
  "fileFails fsv encode f =
     (case readFile fsv f of Inl e \<Rightarrow> True | Inr content \<Rightarrow> encode content = None)"



text \<open>The constructor: the persisted items, then \<^verbatim>\<open>debouncedUpdateTokenCount(100)\<close>.\<close>

definition constructed :: "itemMap \<Rightarrow> provider" where
  "constructed m =
     debouncedUpdateTokenCount 100
       \<lparr>items = m, totalTokenCount = 0, isCountingTokens = False,
        currentTokenCalculationVersion = 0, debounceTimeout = None, armed = [],
        nextHandle = 0, emitted = [], readCalls = []\<rparr>"

text \<open>
  For \<^verbatim>\<open>getChildren\<close>: the flag a listed path gets (the stored one, else the parent's), the
  item built for a listed entry, the entries that pass the exclusion patterns, and the
  \<^verbatim>\<open>items.set\<close> of a child under its path.
\<close>

definition carriedFlag :: "itemMap \<Rightarrow> bool \<Rightarrow> path \<Rightarrow> bool" where
  "carriedFlag m parentChecked fp =
     (case items_get m fp of Some old \<Rightarrow> isChecked old | None \<Rightarrow> parentChecked)"

definition freshChild :: "itemMap \<Rightarrow> path \<Rightarrow> bool \<Rightarrow> string \<times> fsnode \<Rightarrow> FileItem" where
  "freshChild m dirPath parentChecked entry =
     newFileItem (fst entry) (entryIsDirectory (snd entry)) (path_join dirPath (fst entry))
       (carriedFlag m parentChecked (path_join dirPath (fst entry)))"

definition listed :: "config \<Rightarrow> (string \<times> fsnode) list \<Rightarrow> (string \<times> fsnode) list" where
  "listed cfg entries = filter (\<lambda>entry. \<not> excluded cfg (fst entry)) entries"

definition storeChild :: "itemMap \<Rightarrow> FileItem \<Rightarrow> itemMap" where
  "storeChild m child = items_set m (filePath child) child"





section \<open>Example data\<close>

text \<open>
  A workspace \<^verbatim>\<open>/w\<close> with the directory \<^verbatim>\<open>src\<close> and two files in it, all three checked, and
  the provider as the constructor leaves it (one pending debounce timeout).
\<close>

definition exampleItems :: itemMap where
  "exampleItems =
     [(''/w/src'', newFileItem ''src'' True ''/w/src'' True),
      (''/w/src/a.ts'', newFileItem ''a.ts'' False ''/w/src/a.ts'' True),
      (''/w/src/b.ts'', newFileItem ''b.ts'' False ''/w/src/b.ts'' True)]"

definition exampleProvider :: provider where
  "exampleProvider =
     \<lparr>items = exampleItems,
      totalTokenCount = 0, isCountingTokens = False, currentTokenCalculationVersion = 1,
      debounceTimeout = Some 0, armed = [(0, 100)], nextHandle = 1, emitted = [],
      readCalls = []\<rparr>"

definition exampleConfig :: config where
  "exampleConfig =
     \<lparr>workspaceRoot = ''/w'', excludedPatterns = [''.git'', ''node_modules''],
      maxFileSizeWarningKB = 500,
      blockTemplate =
        ''<file name='' @ [CHR 0x22] @ ''{fileNameWithExtension}'' @ [CHR 0x22]
          @ ''>{fileContent}</file>'',
      blockSeparator = [CHR 0x0A], outputExtension = ''txt'', wrapperTemplate = None\<rparr>"

definition allThere :: fsview where
  "allThere = \<lparr>existsSync = (\<lambda>p. True), readFile = (\<lambda>p. Inr ''X'')\<rparr>"

definition oneUnreadable :: fsview where
  "oneUnreadable =
     \<lparr>existsSync = (\<lambda>p. True),
      readFile = (\<lambda>p. if p = ''/w/src/b.ts'' then Inl EACCES else Inr ''X'')\<rparr>"

definition exampleSystem :: system where
  "exampleSystem = \<lparr>prov = exampleProvider, runs = []\<rparr>"

text \<open>A tokenizer that makes one token of every character and rejects long inputs.\<close>

definition exampleEncode :: tokenizer where
  "exampleEncode s = (if 1000 < length s then None else Some (map of_char s))"

definition exampleBurst :: "event list" where
  "exampleBurst =
     [Invalidate 300, Edit (\<lambda>m. items_delete m ''/w/src/b.ts''), Invalidate 300]"

text \<open>A recount of version 1 that waits for the content of \<^verbatim>\<open>a.ts\<close>.\<close>

definition exampleRun :: run where
  "exampleRun =
     \<lparr>calculationVersion = 1, checkedFiles = [''/w/src/a.ts'', ''/w/src/b.ts''],
      remaining = [''/w/src/b.ts''], runningTokenCount = 0, filesProcessed = 0,
      phase = AwaitRead ''/w/src/a.ts''\<rparr>"

text \<open>What \<^verbatim>\<open>readdir\<close> lists in \<^verbatim>\<open>/w/src\<close> after \<^verbatim>\<open>b.ts\<close> was deleted and \<^verbatim>\<open>c.ts\<close> created.\<close>

definition exampleListing :: "(string \<times> fsnode) list" where
  "exampleListing = [(''a.ts'', FileEntry), (''.git'', DirEntry []), (''c.ts'', FileEntry)]"



text \<open>A view in which \<^verbatim>\<open>a.ts\<close> has vanished.\<close>

definition oneGone :: fsview where
  "oneGone =
     \<lparr>existsSync = (\<lambda>p. p \<noteq> ''/w/src/a.ts''),
      readFile = (\<lambda>p. if p = ''/w/src/a.ts'' then Inl ENOENT else Inr ''X'')\<rparr>"









section \<open>Facts about the item map and the recount\<close>

lemma items_get_set [simp]:
  "items_get (items_set m k v) k' = (if k' = k then Some v else items_get m k')"
  by (induction m) (auto simp: items_get_def)

lemma items_get_delete [simp]:
  "items_get (items_delete m k) k' = (if k' = k then None else items_get m k')"
  by (induction m) (auto simp: items_get_def items_delete_def)

lemma forLoop_superseded:
  "calculationVersion r \<noteq> currentTokenCalculationVersion p \<Longrightarrow>
   forLoop fsv fl p r = (p, r\<lparr>remaining := fl, phase := Finished\<rparr>)"
  by (cases fl) (simp_all add: afterLoop_def finallyBlock_def)

lemma resume_superseded:
  assumes "calculationVersion r \<noteq> currentTokenCalculationVersion p"
  shows "emitted (fst (resume fsv encode p r)) = emitted p"
    and "totalTokenCount (fst (resume fsv encode p r)) = totalTokenCount p"
    and "isCountingTokens (fst (resume fsv encode p r)) = isCountingTokens p"
    and "currentTokenCalculationVersion (fst (resume fsv encode p r))
           = currentTokenCalculationVersion p"
    and "armed (fst (resume fsv encode p r)) = armed p"
    and "readCalls (fst (resume fsv encode p r)) = readCalls p"
    and "calculationVersion (snd (resume fsv encode p r)) = calculationVersion r"
  using assms
  by (auto simp: resume_def resumeRead_def resumeYield_def forLoop_superseded finallyBlock_def
      Let_def split: phase.splits sum.splits option.splits)

lemma finallyBlock_frame:
  "armed (fst (finallyBlock p r)) = armed p"
  "debounceTimeout (fst (finallyBlock p r)) = debounceTimeout p"
  "nextHandle (fst (finallyBlock p r)) = nextHandle p"
  "currentTokenCalculationVersion (fst (finallyBlock p r)) = currentTokenCalculationVersion p"
  "calculationVersion (snd (finallyBlock p r)) = calculationVersion r"
  "checkedFiles (snd (finallyBlock p r)) = checkedFiles r"
  by (simp_all add: finallyBlock_def notifyTokenUpdate_def)

lemma afterLoop_frame:
  "armed (fst (afterLoop p r)) = armed p"
  "debounceTimeout (fst (afterLoop p r)) = debounceTimeout p"
  "nextHandle (fst (afterLoop p r)) = nextHandle p"
  "currentTokenCalculationVersion (fst (afterLoop p r)) = currentTokenCalculationVersion p"
  "calculationVersion (snd (afterLoop p r)) = calculationVersion r"
  "checkedFiles (snd (afterLoop p r)) = checkedFiles r"
  by (simp_all add: afterLoop_def finallyBlock_frame)

lemma forLoop_frame:
  "armed (fst (forLoop fsv fl p r)) = armed p"
  "debounceTimeout (fst (forLoop fsv fl p r)) = debounceTimeout p"
  "nextHandle (fst (forLoop fsv fl p r)) = nextHandle p"
  "currentTokenCalculationVersion (fst (forLoop fsv fl p r)) = currentTokenCalculationVersion p"
  "calculationVersion (snd (forLoop fsv fl p r)) = calculationVersion r"
  "checkedFiles (snd (forLoop fsv fl p r)) = checkedFiles r"
  by (induction fl arbitrary: p) (simp_all add: afterLoop_frame finallyBlock_frame)

lemma updateTokenCount_frame:
  "armed (fst (updateTokenCount fsv p)) = armed p"
  "debounceTimeout (fst (updateTokenCount fsv p)) = debounceTimeout p"
  "nextHandle (fst (updateTokenCount fsv p)) = nextHandle p"
  "currentTokenCalculationVersion (fst (updateTokenCount fsv p)) = currentTokenCalculationVersion p"
  "calculationVersion (snd (updateTokenCount fsv p)) = currentTokenCalculationVersion p"
  "checkedFiles (snd (updateTokenCount fsv p)) = getCheckedFiles fsv (items p)"
  by (simp_all add: updateTokenCount_def Let_def forLoop_frame notifyTokenUpdate_def)

lemma debounced_fields:
  "currentTokenCalculationVersion (debouncedUpdateTokenCount d p)
     = Suc (currentTokenCalculationVersion p)"
  "armed (debouncedUpdateTokenCount d p) =
     filter (\<lambda>t. Some (fst t) \<noteq> debounceTimeout p) (armed p) @ [(nextHandle p, d)]"
  "debounceTimeout (debouncedUpdateTokenCount d p) = Some (nextHandle p)"
  "items (debouncedUpdateTokenCount d p) = items p"
  "emitted (debouncedUpdateTokenCount d p) = emitted p"
  "totalTokenCount (debouncedUpdateTokenCount d p) = totalTokenCount p"
  "isCountingTokens (debouncedUpdateTokenCount d p) = isCountingTokens p"
  "readCalls (debouncedUpdateTokenCount d p) = readCalls p"
  "nextHandle (debouncedUpdateTokenCount d p) = Suc (nextHandle p)"
  by (auto simp: debouncedUpdateTokenCount_def clearTimeout_def setTimeout_def Let_def
      split: option.splits intro: filter_cong)

section \<open>Debouncing\<close>

lemma debounced_oneArmed:
  assumes "onlyDebounceArmed p"
  shows "oneArmed (debouncedUpdateTokenCount d p)"
proof -
  from assms have "filter (\<lambda>t. Some (fst t) \<noteq> debounceTimeout p) (armed p) = []"
    by (auto simp: onlyDebounceArmed_def filter_empty_conv)
  then show ?thesis by (simp add: oneArmed_def debounced_fields)
qed

lemma oneArmed_only: "oneArmed p \<Longrightarrow> onlyDebounceArmed p"
  by (auto simp: oneArmed_def onlyDebounceArmed_def split: list.splits)

lemma oneArmed_edit: "oneArmed (p\<lparr>items := m\<rparr>) = oneArmed p"
  by (simp add: oneArmed_def split: list.splits)

lemma burst_keeps_oneArmed:
  "list_all isSelectionEvent evs \<Longrightarrow> oneArmed (prov s) \<Longrightarrow> oneArmed (prov (exec encode evs s))"
proof (induction evs arbitrary: s)
  case Nil
  then show ?case by simp
next
  case (Cons e es)
  show ?case
  proof (cases e)
    case (Edit change)
    with Cons.prems have "oneArmed (prov (step encode e s))"
      by (simp add: oneArmed_edit)
    with Cons Edit show ?thesis by simp
  next
    case (Invalidate d)
    with Cons.prems have "oneArmed (prov (step encode e s))"
      by (simp add: debounced_oneArmed oneArmed_only)
    with Cons Invalidate show ?thesis by simp
  qed (use Cons.prems in simp_all)
qed

lemma burst_arms_one:
  "list_all isSelectionEvent evs \<Longrightarrow> onlyDebounceArmed (prov s)
   \<Longrightarrow> filter isInvalidate evs \<noteq> [] \<Longrightarrow> oneArmed (prov (exec encode evs s))"
proof (induction evs arbitrary: s)
  case Nil
  then show ?case by simp
next
  case (Cons e es)
  show ?case
  proof (cases e)
    case (Edit change)
    with Cons.prems have "onlyDebounceArmed (prov (step encode e s))"
      by (simp add: onlyDebounceArmed_def)
    with Cons Edit show ?thesis by simp
  next
    case (Invalidate d)
    with Cons.prems have "oneArmed (prov (step encode e s))"
      by (simp add: debounced_oneArmed)
    with Cons.prems show ?thesis
      using burst_keeps_oneArmed [of es "step encode e s"] by simp
  qed (use Cons.prems in simp_all)
qed

lemma burst_fields:
  "list_all isSelectionEvent evs \<Longrightarrow>
     currentTokenCalculationVersion (prov (exec encode evs s))
       = currentTokenCalculationVersion (prov s) + length (filter isInvalidate evs)
   \<and> runs (exec encode evs s) = runs s
   \<and> items (prov (exec encode evs s)) = applyEdits evs (items (prov s))
   \<and> emitted (prov (exec encode evs s)) = emitted (prov s)"
proof (induction evs arbitrary: s)
  case Nil
  then show ?case by simp
next
  case (Cons e es)
  then show ?case by (cases e) (simp_all add: debounced_fields)
qed

lemma fire_oneArmed:
  assumes "armed (prov s) = [(h, d)]"
  shows "length (runs (step encode (Fire h fsv) s)) = Suc (length (runs s))"
    and "armed (prov (step encode (Fire h fsv) s)) = []"
    and "checkedFiles (last (runs (step encode (Fire h fsv) s)))
           = getCheckedFiles fsv (items (prov s))"
    and "calculationVersion (last (runs (step encode (Fire h fsv) s)))
           = currentTokenCalculationVersion (prov s)"
  using assms updateTokenCount_frame [of fsv "clearTimeout h (prov s)"]
  by (auto simp: fireTimeout_def split_beta clearTimeout_def)

text \<open>
  C3. A burst of \<open>N \<ge> 1\<close> calls of \<^verbatim>\<open>debouncedUpdateTokenCount\<close> inside the debounce window
  (selection edits in between, no timeout fires): every call increments the version
  counter and replaces the timeout it armed before by a new one; after the burst the
  counter has grown by \<open>N\<close>, no recount has started, and exactly one timeout is pending.
  When it fires, one recount starts, no timeout is left, and the recount captures the
  checked files of the item map as it is at the end of the burst.
\<close>

theorem debounce_burst_yields_one_run:
  assumes "onlyDebounceArmed (prov s)"
    and "list_all isSelectionEvent evs"
    and "1 \<le> length (filter isInvalidate evs)"
  shows "(\<forall>p delay.
            currentTokenCalculationVersion (debouncedUpdateTokenCount delay p)
              = Suc (currentTokenCalculationVersion p)
            \<and> armed (debouncedUpdateTokenCount delay p)
              = filter (\<lambda>t. Some (fst t) \<noteq> debounceTimeout p) (armed p) @ [(nextHandle p, delay)])
    \<and> currentTokenCalculationVersion (prov (exec encode evs s))
        = currentTokenCalculationVersion (prov s) + length (filter isInvalidate evs)
    \<and> runs (exec encode evs s) = runs s
    \<and> (\<exists>h delay. armed (prov (exec encode evs s)) = [(h, delay)]
          \<and> (\<forall>fsv. length (runs (step encode (Fire h fsv) (exec encode evs s)))
                       = Suc (length (runs s))
                \<and> armed (prov (step encode (Fire h fsv) (exec encode evs s))) = []
                \<and> checkedFiles (last (runs (step encode (Fire h fsv) (exec encode evs s))))
                    = getCheckedFiles fsv (applyEdits evs (items (prov s)))
                \<and> calculationVersion (last (runs (step encode (Fire h fsv) (exec encode evs s))))
                    = currentTokenCalculationVersion (prov s)
                        + length (filter isInvalidate evs)))"
proof -
  from assms(3) have ne: "filter isInvalidate evs \<noteq> []" by auto
  from burst_arms_one [OF assms(2) assms(1) ne, of encode]
  obtain h d where one: "armed (prov (exec encode evs s)) = [(h, d)]"
    by (auto simp: oneArmed_def split: list.splits)
  note bf = burst_fields [OF assms(2), of encode s]
  note fo = fire_oneArmed [OF one, of encode]
  show ?thesis
    using bf one fo by (simp add: debounced_fields)
qed

theorem debounce_burst_yields_one_run_witness:
  "onlyDebounceArmed (prov exampleSystem)
   \<and> list_all isSelectionEvent exampleBurst
   \<and> 1 \<le> length (filter isInvalidate exampleBurst)
   \<and> currentTokenCalculationVersion (prov (exec exampleEncode exampleBurst exampleSystem)) = 3
   \<and> runs (exec exampleEncode exampleBurst exampleSystem) = []
   \<and> armed (prov (exec exampleEncode exampleBurst exampleSystem)) = [(2, 300)]
   \<and> checkedFiles (last (runs (step exampleEncode (Fire 2 allThere)
         (exec exampleEncode exampleBurst exampleSystem)))) = [''/w/src/a.ts'']"
proof -
  have a: "onlyDebounceArmed (prov exampleSystem)"
    by (simp add: onlyDebounceArmed_def exampleSystem_def exampleProvider_def)
  have b: "list_all isSelectionEvent exampleBurst"
    by (simp add: exampleBurst_def)
  have c: "1 \<le> length (filter isInvalidate exampleBurst)"
    by (simp add: exampleBurst_def)
  have d: "armed (prov (exec exampleEncode exampleBurst exampleSystem)) = [(2, 300)]"
    by (simp add: exampleBurst_def exampleSystem_def exampleProvider_def debounced_fields)
  have e: "applyEdits exampleBurst (items (prov exampleSystem))
             = [(''/w/src'', newFileItem ''src'' True ''/w/src'' True),
                (''/w/src/a.ts'', newFileItem ''a.ts'' False ''/w/src/a.ts'' True)]"
    by (simp add: exampleBurst_def exampleSystem_def exampleProvider_def exampleItems_def
        items_delete_def)
  have f: "getCheckedFiles allThere (applyEdits exampleBurst (items (prov exampleSystem)))
             = [''/w/src/a.ts'']"
    unfolding e
    by (simp add: getCheckedFiles_def items_values_def newFileItem_def contextValue_def
        allThere_def)
  have g: "currentTokenCalculationVersion (prov exampleSystem) = 1"
    and h: "length (filter isInvalidate exampleBurst) = 2"
    and i: "runs exampleSystem = []"
    by (simp_all add: exampleBurst_def exampleSystem_def exampleProvider_def)
  from debounce_burst_yields_one_run [OF a b c, of exampleEncode]
  obtain t delay where
    ver: "currentTokenCalculationVersion (prov (exec exampleEncode exampleBurst exampleSystem))
            = currentTokenCalculationVersion (prov exampleSystem)
                + length (filter isInvalidate exampleBurst)"
    and rn: "runs (exec exampleEncode exampleBurst exampleSystem) = runs exampleSystem"
    and one: "armed (prov (exec exampleEncode exampleBurst exampleSystem)) = [(t, delay)]"
    and fire: "\<forall>fsv. checkedFiles (last (runs (step exampleEncode (Fire t fsv)
                   (exec exampleEncode exampleBurst exampleSystem))))
                 = getCheckedFiles fsv (applyEdits exampleBurst (items (prov exampleSystem)))"
    by blast
  from one d have "t = 2" by simp
  with fire f have
    "checkedFiles (last (runs (step exampleEncode (Fire 2 allThere)
         (exec exampleEncode exampleBurst exampleSystem)))) = [''/w/src/a.ts'']"
    by simp
  with a b c d ver rn g h i show ?thesis by simp
qed

section \<open>Clearing the selection\<close>





section \<open>Rendering\<close>

lemma getSubstitution_no_dollar:
  "CHR ''$'' \<notin> set repl \<Longrightarrow> getSubstitution matched preceding following repl = repl"
  by (induction matched preceding following repl rule: getSubstitution.induct) auto

lemma renderBlock_example:
  "renderBlock exampleConfig ''/w/src/a.ts'' ''X''
     = ''<file name='' @ [CHR 0x22] @ ''a.ts'' @ [CHR 0x22] @ ''>X</file>''"
  by (simp add: exampleConfig_def renderBlock_def replaceAll_def basename_def extname_def
      basenameExt_def path_relative_def components_def endsWith_def)

text \<open>
  C5. The block of a file is the template with the six placeholders replaced in the order
  of the source, the content last. The replacement is handed to \<^verbatim>\<open>String.prototype.replace\<close>
  as a string, so the dollar patterns of the content are expanded: with the template of
  the claim, the file \<^verbatim>\<open>/w/src/a.ts\<close> whose content is the two characters \<^verbatim>\<open>$&\<close> is rendered
  with the placeholder \<^verbatim>\<open>{fileContent}\<close> in place of its content. The content is not
  inserted verbatim.
\<close>

theorem renderBlock_dollar_content:
  "renderBlock exampleConfig ''/w/src/a.ts'' ''$&''
     = ''<file name='' @ [CHR 0x22] @ ''a.ts'' @ [CHR 0x22] @ ''>{fileContent}</file>''"
  by (simp add: exampleConfig_def renderBlock_def replaceAll_def basename_def extname_def
      basenameExt_def path_relative_def components_def endsWith_def)

lemma renderAll_fails:
  "f \<in> set fs \<Longrightarrow> readFile fsv f = Inl e \<Longrightarrow> \<exists>e'. renderAll cfg fsv fs = Inl e'"
  by (induction fs) (auto split: sum.splits)

text \<open>
  C6. If a checked file cannot be read when \<^verbatim>\<open>generateFile\<close> renders, the call ends with the
  error message and writes no output file, whatever the other files are.
\<close>

theorem generateFile_unreadable_aborts:
  assumes "f \<in> set (getCheckedFiles fsv0 (items p))"
    and "readFile fsv1 f = Inl e"
  shows "(\<exists>e'. generateFile cfg timestamp nameInput fsv0 fsv1 p = ErrorShown e')
    \<and> (\<forall>outputPath output.
          generateFile cfg timestamp nameInput fsv0 fsv1 p \<noteq> FileWritten outputPath output)"
proof -
  from assms have ne: "getCheckedFiles fsv0 (items p) \<noteq> []" by auto
  from renderAll_fails [OF assms] obtain e' where
    "renderAll cfg fsv1 (getCheckedFiles fsv0 (items p)) = Inl e'" by blast
  with ne have "generateFile cfg timestamp nameInput fsv0 fsv1 p = ErrorShown e'"
    by (simp add: generateFile_def Let_def)
  then show ?thesis by simp
qed

theorem generateFile_unreadable_aborts_witness:
  "''/w/src/b.ts'' \<in> set (getCheckedFiles allThere (items exampleProvider))
   \<and> readFile oneUnreadable ''/w/src/b.ts'' = Inl EACCES
   \<and> generateFile exampleConfig ''2026'' None allThere oneUnreadable exampleProvider
       = ErrorShown EACCES"
proof -
  have a: "''/w/src/b.ts'' \<in> set (getCheckedFiles allThere (items exampleProvider))"
    by (simp add: getCheckedFiles_def exampleProvider_def exampleItems_def allThere_def
        items_values_def newFileItem_def contextValue_def)
  have b: "readFile oneUnreadable ''/w/src/b.ts'' = Inl EACCES"
    by (simp add: oneUnreadable_def)
  from generateFile_unreadable_aborts [OF a b, of exampleConfig "''2026''" None]
  obtain e' where
    c: "generateFile exampleConfig ''2026'' None allThere oneUnreadable exampleProvider
          = ErrorShown e'" by blast
  have "renderAll exampleConfig oneUnreadable [''/w/src/a.ts'', ''/w/src/b.ts''] = Inl EACCES"
    by (simp add: oneUnreadable_def)
  then have "generateFile exampleConfig ''2026'' None allThere oneUnreadable exampleProvider
          = ErrorShown EACCES"
    by (simp add: generateFile_def getCheckedFiles_def exampleProvider_def exampleItems_def
        allThere_def items_values_def newFileItem_def contextValue_def Let_def)
  with a b c show ?thesis by simp
qed

section \<open>Re-scanning a directory\<close>

lemma debounced_items [simp]: "items (debouncedUpdateTokenCount d p) = items p"
  by (simp add: debounced_fields)

lemma visitEntry_item:
  "fst (visitEntry dirPath pc name node p) = freshChild (items p) dirPath pc (name, node)"
  by (simp add: visitEntry_def freshChild_def carriedFlag_def Let_def split: option.splits)

lemma visitEntry_items:
  "items (snd (visitEntry dirPath pc name node p))
     = items_set (items p) (path_join dirPath name) (freshChild (items p) dirPath pc (name, node))"
  by (simp add: visitEntry_def freshChild_def carriedFlag_def Let_def split: option.splits)

lemma carriedFlag_visit:
  "carriedFlag (items (snd (visitEntry dirPath pc name node p))) pc fp = carriedFlag (items p) pc fp"
  by (simp add: visitEntry_items) (simp add: carriedFlag_def freshChild_def newFileItem_def)

lemma childLoop_flags:
  "carriedFlag (items (snd (childLoop cfg dirPath pc entries p))) pc fp = carriedFlag (items p) pc fp"
proof (induction entries arbitrary: p)
  case Nil
  then show ?case by simp
next
  case (Cons entry entries)
  obtain name node where entry: "entry = (name, node)" by (cases entry)
  show ?case
    unfolding entry by (simp add: split_beta Cons.IH carriedFlag_visit)
qed

lemma freshChild_cong:
  "(\<And>fp. carriedFlag m pc fp = carriedFlag m' pc fp) \<Longrightarrow>
   freshChild m dirPath pc = freshChild m' dirPath pc"
  by (simp add: freshChild_def fun_eq_iff)

lemma freshChild_visit:
  "freshChild (items (snd (visitEntry dirPath pc name node p))) dirPath pc
     = freshChild (items p) dirPath pc"
  by (rule freshChild_cong) (rule carriedFlag_visit)

lemma childLoop_children:
  "fst (childLoop cfg dirPath pc entries p)
     = map (freshChild (items p) dirPath pc) (listed cfg entries)"
proof (induction entries arbitrary: p)
  case Nil
  then show ?case by (simp add: listed_def)
next
  case (Cons entry entries)
  obtain name node where entry: "entry = (name, node)" by (cases entry)
  show ?case
    unfolding entry using Cons.IH [of p] Cons.IH [of "snd (visitEntry dirPath pc name node p)"]
    by (simp add: split_beta listed_def freshChild_visit visitEntry_item)
qed

lemma childLoop_items:
  "items (snd (childLoop cfg dirPath pc entries p))
     = foldl storeChild (items p) (map (freshChild (items p) dirPath pc) (listed cfg entries))"
proof (induction entries arbitrary: p)
  case Nil
  then show ?case by (simp add: listed_def)
next
  case (Cons entry entries)
  obtain name node where entry: "entry = (name, node)" by (cases entry)
  have fp: "filePath (freshChild m dirPath pc (name, node)) = path_join dirPath name" for m
    by (simp add: freshChild_def newFileItem_def)
  have "items (snd (childLoop cfg dirPath pc entries (snd (visitEntry dirPath pc name node p))))
      = foldl storeChild (storeChild (items p) (freshChild (items p) dirPath pc (name, node)))
          (map (freshChild (items p) dirPath pc) (listed cfg entries))"
    unfolding Cons.IH freshChild_visit by (simp add: visitEntry_items storeChild_def fp)
  then show ?case
    unfolding entry using Cons.IH [of p]
    by (simp add: split_beta listed_def)
qed

lemma childLoop_keeps_keys:
  "items_get (items p) fp = Some it \<Longrightarrow>
   \<exists>it'. items_get (items (snd (childLoop cfg dirPath pc entries p))) fp = Some it'"
proof (induction entries arbitrary: p it)
  case Nil
  then show ?case by simp
next
  case (Cons entry entries)
  obtain name node where entry: "entry = (name, node)" by (cases entry)
  from Cons.prems
  have "\<exists>it1. items_get (items (snd (visitEntry dirPath pc name node p))) fp = Some it1"
    by (simp add: visitEntry_items)
  with Cons.IH Cons.prems show ?case
    unfolding entry by (auto simp: split_beta)
qed

lemma childLoop_listed_present:
  "entry \<in> set (listed cfg entries) \<Longrightarrow>
   \<exists>it'. items_get (items (snd (childLoop cfg dirPath pc entries p)))
           (path_join dirPath (fst entry)) = Some it'"
proof (induction entries arbitrary: p)
  case Nil
  then show ?case by (simp add: listed_def)
next
  case (Cons e entries)
  obtain name node where e: "e = (name, node)" by (cases e)
  show ?case
  proof (cases "excluded cfg name")
    case True
    with Cons show ?thesis by (simp add: e listed_def)
  next
    case False
    show ?thesis
    proof (cases "entry = e")
      case True
      have "\<exists>it. items_get (items (snd (visitEntry dirPath pc name node p)))
                  (path_join dirPath name) = Some it"
        by (simp add: visitEntry_items)
      then obtain it where
        "items_get (items (snd (visitEntry dirPath pc name node p))) (path_join dirPath name)
           = Some it" ..
      from childLoop_keeps_keys [OF this] True False show ?thesis
        by (simp add: e split_beta)
    next
      case F: False
      with Cons.prems False have "entry \<in> set (listed cfg entries)"
        by (simp add: listed_def e)
      from Cons.IH [OF this] False show ?thesis by (simp add: e split_beta)
    qed
  qed
qed

text \<open>
  C10. A successful re-scan of a directory by \<^verbatim>\<open>getChildren\<close> builds a new item for every
  listed entry that passes the exclusion patterns (name, kind and path from the listing,
  the flag by path lookup) and stores it in the map under its path; the children
  returned are these items, sorted. Every path the map knew before is still known and
  keeps its checked flag. A listed path that was known keeps the stored flag; one that
  was not gets the flag of the listed parent, and \<open>False\<close> at the root.
\<close>

theorem getChildren_carries_checked_state:
  assumes "node = Some (DirEntry entries)"
    and "getChildren cfg localeCompare node element p = (children, p')"
    and "dirPath = (case element of Some e \<Rightarrow> filePath e | None \<Rightarrow> workspaceRoot cfg)"
    and "parentChecked = (case element of Some e \<Rightarrow> isChecked e | None \<Rightarrow> False)"
  shows "children = sortBy (compareItems localeCompare)
                      (map (freshChild (items p) dirPath parentChecked) (listed cfg entries))
    \<and> items p' = foldl storeChild (items p)
                      (map (freshChild (items p) dirPath parentChecked) (listed cfg entries))
    \<and> (\<forall>fp it. items_get (items p) fp = Some it \<longrightarrow>
           (\<exists>it'. items_get (items p') fp = Some it' \<and> isChecked it' = isChecked it))
    \<and> (\<forall>entry \<in> set (listed cfg entries).
           \<exists>it'. items_get (items p') (path_join dirPath (fst entry)) = Some it'
             \<and> isChecked it' =
                 (case items_get (items p) (path_join dirPath (fst entry)) of
                    Some old \<Rightarrow> isChecked old
                  | None \<Rightarrow> (case element of Some e \<Rightarrow> isChecked e | None \<Rightarrow> False)))"
proof (intro conjI)
  from assms have c: "children = sortBy (compareItems localeCompare)
                         (fst (childLoop cfg dirPath parentChecked entries p))"
    and p': "p' = snd (childLoop cfg dirPath parentChecked entries p)"
    by (auto simp: getChildren_def Let_def split_beta)
  show "children = sortBy (compareItems localeCompare)
                      (map (freshChild (items p) dirPath parentChecked) (listed cfg entries))"
    by (simp add: c childLoop_children)
  show "items p' = foldl storeChild (items p)
                      (map (freshChild (items p) dirPath parentChecked) (listed cfg entries))"
    by (simp add: p' childLoop_items)
  show "\<forall>fp it. items_get (items p) fp = Some it \<longrightarrow>
           (\<exists>it'. items_get (items p') fp = Some it' \<and> isChecked it' = isChecked it)"
  proof (intro allI impI)
    fix fp it assume a: "items_get (items p) fp = Some it"
    from childLoop_keeps_keys [OF a] obtain it' where
      b: "items_get (items p') fp = Some it'" unfolding p' by blast
    have "carriedFlag (items p') parentChecked fp = isChecked it'"
      and "carriedFlag (items p) parentChecked fp = isChecked it"
      using a b by (simp_all add: carriedFlag_def)
    with childLoop_flags [of cfg dirPath parentChecked entries p fp]
    have "isChecked it' = isChecked it" by (simp add: p')
    with b show "\<exists>it'. items_get (items p') fp = Some it' \<and> isChecked it' = isChecked it"
      by blast
  qed
  show "\<forall>entry \<in> set (listed cfg entries).
           \<exists>it'. items_get (items p') (path_join dirPath (fst entry)) = Some it'
             \<and> isChecked it' =
                 (case items_get (items p) (path_join dirPath (fst entry)) of
                    Some old \<Rightarrow> isChecked old
                  | None \<Rightarrow> (case element of Some e \<Rightarrow> isChecked e | None \<Rightarrow> False))"
  proof
    fix entry assume a: "entry \<in> set (listed cfg entries)"
    from childLoop_listed_present [OF a] obtain it' where
      b: "items_get (items p') (path_join dirPath (fst entry)) = Some it'"
      unfolding p' by blast
    have "carriedFlag (items p') parentChecked (path_join dirPath (fst entry)) = isChecked it'"
      using b by (simp add: carriedFlag_def)
    with childLoop_flags [of cfg dirPath parentChecked entries p "path_join dirPath (fst entry)"]
    have "isChecked it' = carriedFlag (items p) parentChecked (path_join dirPath (fst entry))"
      by (simp add: p')
    with b show "\<exists>it'. items_get (items p') (path_join dirPath (fst entry)) = Some it'
             \<and> isChecked it' =
                 (case items_get (items p) (path_join dirPath (fst entry)) of
                    Some old \<Rightarrow> isChecked old
                  | None \<Rightarrow> (case element of Some e \<Rightarrow> isChecked e | None \<Rightarrow> False))"
      by (auto simp: carriedFlag_def assms(4))
  qed
qed

theorem getChildren_carries_checked_state_witness:
  "getChildren exampleConfig (\<lambda>a b. 0) (Some (DirEntry exampleListing))
      (Some (newFileItem ''src'' True ''/w/src'' False)) exampleProvider
     = ([newFileItem ''a.ts'' False ''/w/src/a.ts'' True,
         newFileItem ''c.ts'' False ''/w/src/c.ts'' False],
        exampleProvider\<lparr>items := exampleItems @
           [(''/w/src/c.ts'', newFileItem ''c.ts'' False ''/w/src/c.ts'' False)]\<rparr>)
   \<and> (''c.ts'', FileEntry) \<in> set (listed exampleConfig exampleListing)
   \<and> items_get exampleItems ''/w/src/b.ts'' = Some (newFileItem ''b.ts'' False ''/w/src/b.ts'' True)
   \<and> items_get (exampleItems @
           [(''/w/src/c.ts'', newFileItem ''c.ts'' False ''/w/src/c.ts'' False)]) ''/w/src/b.ts''
       = Some (newFileItem ''b.ts'' False ''/w/src/b.ts'' True)"
proof -
  let ?G = "getChildren exampleConfig (\<lambda>a b. 0) (Some (DirEntry exampleListing))
      (Some (newFileItem ''src'' True ''/w/src'' False)) exampleProvider"
  have l: "listed exampleConfig exampleListing = [(''a.ts'', FileEntry), (''c.ts'', FileEntry)]"
    by (simp add: listed_def exampleListing_def excluded_def exampleConfig_def
        matchesPattern_def endsWith_def)
  have g: "?G = (fst ?G, snd ?G)"
    by simp
  have dp: "''/w/src'' = (case Some (newFileItem ''src'' True ''/w/src'' False) of
                           Some e \<Rightarrow> filePath e | None \<Rightarrow> workspaceRoot exampleConfig)"
    and pc: "False = (case Some (newFileItem ''src'' True ''/w/src'' False) of
                           Some e \<Rightarrow> isChecked e | None \<Rightarrow> False)"
    by (simp_all add: newFileItem_def)
  have fr: "map (freshChild exampleItems ''/w/src'' False)
              [(''a.ts'', FileEntry), (''c.ts'', FileEntry)]
     = [newFileItem ''a.ts'' False ''/w/src/a.ts'' True,
        newFileItem ''c.ts'' False ''/w/src/c.ts'' False]"
    by (simp add: freshChild_def carriedFlag_def exampleItems_def items_get_def path_join_def
        newFileItem_def)
  have ip: "items exampleProvider = exampleItems"
    by (simp add: exampleProvider_def)
  from getChildren_carries_checked_state [OF refl g dp pc]
  have t1: "fst ?G = sortBy (compareItems (\<lambda>a b. 0))
               (map (freshChild (items exampleProvider) ''/w/src'' False)
                  (listed exampleConfig exampleListing))"
    and t2: "items (snd ?G) = foldl storeChild (items exampleProvider)
               (map (freshChild (items exampleProvider) ''/w/src'' False)
                  (listed exampleConfig exampleListing))"
    by blast+
  have ch: "fst ?G = [newFileItem ''a.ts'' False ''/w/src/a.ts'' True,
                      newFileItem ''c.ts'' False ''/w/src/c.ts'' False]"
    unfolding t1 ip l fr by (simp add: sortBy_def compareItems_def newFileItem_def)
  have it: "items (snd ?G)
     = exampleItems @ [(''/w/src/c.ts'', newFileItem ''c.ts'' False ''/w/src/c.ts'' False)]"
    unfolding t2 ip l fr by (simp add: storeChild_def exampleItems_def newFileItem_def)
  have rest: "snd ?G = exampleProvider\<lparr>items := items (snd ?G)\<rparr>"
    by (simp add: getChildren_def exampleListing_def excluded_def exampleConfig_def
        matchesPattern_def endsWith_def visitEntry_def exampleProvider_def exampleItems_def
        items_get_def path_join_def newFileItem_def split_beta Let_def)
  have b: "items_get exampleItems ''/w/src/b.ts''
             = Some (newFileItem ''b.ts'' False ''/w/src/b.ts'' True)"
    "items_get (exampleItems @
           [(''/w/src/c.ts'', newFileItem ''c.ts'' False ''/w/src/c.ts'' False)]) ''/w/src/b.ts''
       = Some (newFileItem ''b.ts'' False ''/w/src/b.ts'' True)"
    by (simp_all add: exampleItems_def items_get_def)
  have "?G = ([newFileItem ''a.ts'' False ''/w/src/a.ts'' True,
         newFileItem ''c.ts'' False ''/w/src/c.ts'' False],
        exampleProvider\<lparr>items := exampleItems @
           [(''/w/src/c.ts'', newFileItem ''c.ts'' False ''/w/src/c.ts'' False)]\<rparr>)"
    using ch rest unfolding it by (simp add: prod_eq_iff)
  with b l show ?thesis by simp
qed

lemmas example_defs =
  exampleSystem_def exampleProvider_def exampleRun_def allThere_def exampleEncode_def
  exampleItems_def newFileItem_def

lemmas recount_defs =
  resumeRun_def resume_def resumeRead_def resumeYield_def fireTimeout_def
  debouncedUpdateTokenCount_def clearTimeout_def setTimeout_def updateTokenCount_def
  getCheckedFiles_def items_values_def contextValue_def notifyTokenUpdate_def
  afterLoop_def finallyBlock_def items_delete_def items_get_def Let_def

section \<open>Recounts that are current, recounts that are superseded\<close>

lemma finallyBlock_current:
  assumes "calculationVersion r = currentTokenCalculationVersion p"
  shows "finallyBlock p r =
     (p\<lparr>isCountingTokens := False,
        emitted := emitted p @ [\<lparr>count = totalTokenCount p, isCounting = False\<rparr>]\<rparr>,
      r\<lparr>phase := Finished\<rparr>)"
  using assms by (simp add: finallyBlock_def notifyTokenUpdate_def)

lemma forLoop_current:
  assumes "calculationVersion r = currentTokenCalculationVersion p"
  shows "runningTokenCount (snd (forLoop fsv fl p r)) = runningTokenCount r
    \<and> (phase (snd (forLoop fsv fl p r)) = Finished \<longrightarrow>
          totalTokenCount (fst (forLoop fsv fl p r)) = runningTokenCount r
        \<and> \<not> isCountingTokens (fst (forLoop fsv fl p r))
        \<and> emitted (fst (forLoop fsv fl p r))
            = emitted p @ [\<lparr>count = runningTokenCount r, isCounting = False\<rparr>])
    \<and> (phase (snd (forLoop fsv fl p r)) \<noteq> Finished \<longrightarrow>
          totalTokenCount (fst (forLoop fsv fl p r)) = totalTokenCount p
        \<and> isCountingTokens (fst (forLoop fsv fl p r)) = isCountingTokens p
        \<and> emitted (fst (forLoop fsv fl p r)) = emitted p)"
  using assms
proof (induction fl arbitrary: p)
  case Nil
  then show ?case by (simp add: afterLoop_def finallyBlock_current)
next
  case (Cons f fl)
  show ?case
  proof (cases "existsSync fsv f")
    case True
    with Cons.prems show ?thesis by simp
  next
    case False
    with Cons.prems Cons.IH [of "p\<lparr>items := items_delete (items p) f\<rparr>"]
    show ?thesis by simp
  qed
qed


lemma resume_frame:
  "armed (fst (resume fsv encode p r)) = armed p"
  "debounceTimeout (fst (resume fsv encode p r)) = debounceTimeout p"
  "currentTokenCalculationVersion (fst (resume fsv encode p r)) = currentTokenCalculationVersion p"
  "calculationVersion (snd (resume fsv encode p r)) = calculationVersion r"
  "checkedFiles (snd (resume fsv encode p r)) = checkedFiles r"
  by (simp_all add: resume_def resumeRead_def resumeYield_def forLoop_frame finallyBlock_frame
      Let_def split: phase.splits sum.splits option.splits)

lemma updateTokenCount_current:
  "(phase (snd (updateTokenCount fsv p)) = Finished \<longrightarrow>
      totalTokenCount (fst (updateTokenCount fsv p))
        = runningTokenCount (snd (updateTokenCount fsv p))
    \<and> \<not> isCountingTokens (fst (updateTokenCount fsv p))
    \<and> emitted (fst (updateTokenCount fsv p))
        = emitted p
          @ (if getCheckedFiles fsv (items p) = [] then []
             else [\<lparr>count = totalTokenCount p, isCounting = True\<rparr>])
          @ [\<lparr>count = runningTokenCount (snd (updateTokenCount fsv p)), isCounting = False\<rparr>])
   \<and> (phase (snd (updateTokenCount fsv p)) \<noteq> Finished \<longrightarrow>
      totalTokenCount (fst (updateTokenCount fsv p)) = totalTokenCount p
    \<and> isCountingTokens (fst (updateTokenCount fsv p))
    \<and> getCheckedFiles fsv (items p) \<noteq> []
    \<and> emitted (fst (updateTokenCount fsv p))
        = emitted p @ [\<lparr>count = totalTokenCount p, isCounting = True\<rparr>])"
proof (cases "getCheckedFiles fsv (items p) = []")
  case True
  then show ?thesis by (simp add: updateTokenCount_def notifyTokenUpdate_def Let_def)
next
  case False
  let ?r = "\<lparr>calculationVersion = currentTokenCalculationVersion p,
                checkedFiles = getCheckedFiles fsv (items p),
                remaining = getCheckedFiles fsv (items p),
                runningTokenCount = 0, filesProcessed = 0, phase = Finished\<rparr>"
  let ?p = "notifyTokenUpdate (p\<lparr>isCountingTokens := True\<rparr>)"
  have cur: "calculationVersion ?r = currentTokenCalculationVersion ?p"
    by (simp add: notifyTokenUpdate_def)
  have u: "updateTokenCount fsv p = forLoop fsv (getCheckedFiles fsv (items p)) ?p ?r"
    using False by (simp add: updateTokenCount_def Let_def)
  have e: "emitted ?p = emitted p @ [\<lparr>count = totalTokenCount p, isCounting = True\<rparr>]"
    and t: "totalTokenCount ?p = totalTokenCount p"
    and c: "isCountingTokens ?p"
    and z: "runningTokenCount ?r = 0"
    by (simp_all add: notifyTokenUpdate_def)
  note fc = forLoop_current [OF cur, of fsv "getCheckedFiles fsv (items p)", folded u]
  show ?thesis
  proof (cases "phase (snd (updateTokenCount fsv p)) = Finished")
    case True
    with fc False show ?thesis unfolding e t z by simp
  next
    case F: False
    with fc False c show ?thesis unfolding e t z by simp
  qed
qed

lemma list_all_update:
  "list_all P xs \<Longrightarrow> P y \<Longrightarrow> list_all P (xs[i := y])"
  by (auto simp: list_all_iff dest!: set_update_subset_insert [THEN subsetD])

lemma oneArmed_cong:
  "armed p' = armed p \<Longrightarrow> debounceTimeout p' = debounceTimeout p \<Longrightarrow> oneArmed p' = oneArmed p"
  by (simp add: oneArmed_def split: list.splits)

lemma step_awaitingFire:
  assumes "awaitingFire p0 n s" and "noInvalidate e"
  shows "awaitingFire p0 n (step encode e s) \<or> started p0 n (step encode e s)"
proof (cases e)
  case (Edit change)
  with assms(1) show ?thesis by (simp add: awaitingFire_def oneArmed_edit)
next
  case (Invalidate d)
  with assms(2) show ?thesis by simp
next
  case (Fire h fsv)
  show ?thesis
  proof (cases "h \<in> fst ` set (armed (prov s))")
    case False
    with Fire assms(1) show ?thesis by (simp add: fireTimeout_def)
  next
    case True
    let ?p = "clearTimeout h (prov s)"
    from assms(1) True have cleared: "armed ?p = []"
      by (auto simp: awaitingFire_def oneArmed_def clearTimeout_def split: list.splits)
    have same: "emitted ?p = emitted (prov s)" "totalTokenCount ?p = totalTokenCount (prov s)"
      "currentTokenCalculationVersion ?p = currentTokenCalculationVersion (prov s)"
      "items ?p = items (prov s)"
      by (simp_all add: clearTimeout_def)
    have st: "step encode e s = \<lparr>prov = fst (updateTokenCount fsv ?p),
                                  runs = runs s @ [snd (updateTokenCount fsv ?p)]\<rparr>"
      using True Fire by (simp add: fireTimeout_def split_beta)
    from assms(1) have n: "length (runs s) = n" by (simp add: awaitingFire_def)
    have "started p0 n (step encode e s)"
      unfolding started_def st
      using assms(1) updateTokenCount_current [of fsv ?p] n
      by (auto simp: updateTokenCount_frame cleared same awaitingFire_def nth_append
          split: if_splits)
    then show ?thesis ..
  qed
next
  case (Resume i fsv)
  show ?thesis
  proof (cases "i < length (runs s)")
    case False
    with Resume assms(1) show ?thesis by (simp add: resumeRun_def)
  next
    case True
    let ?r = "runs s ! i"
    from assms(1) True have sup: "calculationVersion ?r \<noteq> currentTokenCalculationVersion (prov s)"
      by (auto simp: awaitingFire_def list_all_length)
    have st: "step encode e s = \<lparr>prov = fst (resume fsv encode (prov s) ?r),
                                  runs = (runs s)[i := snd (resume fsv encode (prov s) ?r)]\<rparr>"
      using True Resume by (simp add: resumeRun_def split_beta)
    have one: "oneArmed (fst (resume fsv encode (prov s) ?r)) = oneArmed (prov s)"
      by (rule oneArmed_cong) (simp_all add: resume_frame)
    from assms(1) True
    have "list_all (\<lambda>r. calculationVersion r < currentTokenCalculationVersion p0)
            ((runs s)[i := snd (resume fsv encode (prov s) ?r)])"
      by (intro list_all_update) (auto simp: awaitingFire_def resume_frame list_all_length)
    with assms(1) have "awaitingFire p0 n (step encode e s)"
      unfolding st awaitingFire_def
      by (simp add: resume_superseded [OF sup] resume_frame one)
    then show ?thesis ..
  qed
qed





lemma wellFormed_awaitingFire:
  assumes "wellFormed s" and "armed (prov s) \<noteq> []"
  shows "awaitingFire (prov s) (length (runs s)) s"
proof -
  from assms obtain t where "armed (prov s) = [t]"
    by (cases "armed (prov s)") (auto simp: wellFormed_def)
  with assms show ?thesis
    by (auto simp: wellFormed_def awaitingFire_def oneArmed_def onlyDebounceArmed_def
        list_all_iff)
qed

lemma wellFormed_constructed: "wellFormed \<lparr>prov = constructed m, runs = []\<rparr>"
  by (simp add: wellFormed_def constructed_def onlyDebounceArmed_def debounced_fields)

lemma wellFormed_step:
  assumes "wellFormed s"
  shows "wellFormed (step encode e s)"
proof (cases e)
  case (Edit change)
  with assms show ?thesis by (simp add: wellFormed_def onlyDebounceArmed_def)
next
  case (Invalidate d)
  from assms have "oneArmed (debouncedUpdateTokenCount d (prov s))"
    by (simp add: debounced_oneArmed wellFormed_def)
  then have "onlyDebounceArmed (debouncedUpdateTokenCount d (prov s))"
    and "length (armed (debouncedUpdateTokenCount d (prov s))) \<le> 1"
    by (auto simp: oneArmed_only oneArmed_def split: list.splits)
  with assms Invalidate show ?thesis
    by (auto simp: wellFormed_def debounced_fields(1))
next
  case (Fire h fsv)
  show ?thesis
  proof (cases "h \<in> fst ` set (armed (prov s))")
    case False
    with Fire assms show ?thesis by (simp add: fireTimeout_def)
  next
    case True
    then have ne: "armed (prov s) \<noteq> []" by auto
    from step_awaitingFire [OF wellFormed_awaitingFire [OF assms ne], of e encode] Fire
    have "awaitingFire (prov s) (length (runs s)) (step encode e s)
        \<or> started (prov s) (length (runs s)) (step encode e s)" by simp
    moreover
    from assms True have ar: "armed (prov (step encode e s)) = []"
      by (cases "armed (prov s)")
        (auto simp: Fire fireTimeout_def split_beta updateTokenCount_frame clearTimeout_def
          wellFormed_def)
    then have "\<not> awaitingFire (prov s) (length (runs s)) (step encode e s)"
      by (simp add: awaitingFire_def oneArmed_def)
    ultimately have st: "started (prov s) (length (runs s)) (step encode e s)" by blast
    have "\<forall>r \<in> set (runs (step encode e s)).
            calculationVersion r \<le> currentTokenCalculationVersion (prov (step encode e s))"
    proof
      fix r assume "r \<in> set (runs (step encode e s))"
      then obtain i where i: "i < length (runs (step encode e s))"
        and r: "r = runs (step encode e s) ! i"
        by (auto simp: in_set_conv_nth)
      from st i r show "calculationVersion r \<le> currentTokenCalculationVersion (prov (step encode e s))"
        by (cases "i = length (runs s)")
          (auto simp: started_def list_all_length less_Suc_eq dest!: spec [of _ i])
    qed
    with ar show ?thesis by (simp add: wellFormed_def onlyDebounceArmed_def)
  qed
next
  case (Resume i fsv)
  show ?thesis
  proof (cases "i < length (runs s)")
    case False
    with Resume assms show ?thesis by (simp add: resumeRun_def)
  next
    case True
    let ?res = "resume fsv encode (prov s) (runs s ! i)"
    have st: "step encode e s = \<lparr>prov = fst ?res, runs = (runs s)[i := snd ?res]\<rparr>"
      using True Resume by (simp add: resumeRun_def split_beta)
    have inset: "r \<in> set ((runs s)[i := snd ?res]) \<Longrightarrow>
        \<exists>r' \<in> set (runs s). calculationVersion r = calculationVersion r'" for r
      using True
      by (auto simp: resume_frame dest!: set_update_subset_insert [THEN subsetD]
          intro: nth_mem)
    from assms show ?thesis
      unfolding st wellFormed_def
      by (auto simp: resume_frame onlyDebounceArmed_def dest!: inset)
  qed
qed

text \<open>Every system the event loop reaches from the constructor is well formed.\<close>

lemma wellFormed_exec:
  "wellFormed s \<Longrightarrow> wellFormed (exec encode evs s)"
  by (induction evs arbitrary: s) (simp_all add: wellFormed_step)

lemma wellFormed_reachable:
  "wellFormed (exec encode evs \<lparr>prov = constructed m, runs = []\<rparr>)"
  by (rule wellFormed_exec) (rule wellFormed_constructed)



section \<open>The count of a completed recount\<close>


lemma forLoop_running:
  "runningTokenCount (snd (forLoop fsv fl p r)) = runningTokenCount r"
  by (induction fl arbitrary: p) (simp_all add: afterLoop_def finallyBlock_def)









text \<open>
  C7. A per-file error does not end the recount. When the file is missing at the check
  before the read, it is removed from the map and the loop goes on with the files after
  it. When the read is rejected or \<^verbatim>\<open>encode\<close> throws, the recount resumes at the head of
  the loop for the remaining files with its running total unchanged, and the file is
  removed from the map when the read failed with \<^verbatim>\<open>ENOENT\<close>.
\<close>

theorem per_file_errors_are_skipped:
  "(calculationVersion r = currentTokenCalculationVersion p \<and> \<not> existsSync fsv f \<longrightarrow>
      forLoop fsv (f # rest) p r
        = forLoop fsv rest (p\<lparr>items := items_delete (items p) f\<rparr>) r
      \<and> runningTokenCount (snd (forLoop fsv (f # rest) p r)) = runningTokenCount r
      \<and> items_get (items (fst (forLoop fsv (f # rest) p r))) f = None)
   \<and> (phase r = AwaitRead f \<and> fileFails fsv encode f \<longrightarrow>
      resume fsv encode p r
        = forLoop fsv (remaining r)
            (if readFile fsv f = Inl ENOENT then p\<lparr>items := items_delete (items p) f\<rparr> else p) r
      \<and> runningTokenCount (snd (resume fsv encode p r)) = runningTokenCount r
      \<and> (readFile fsv f = Inl ENOENT \<longrightarrow>
            items_get (items (fst (resume fsv encode p r))) f = None))"
proof -
  have gone: "items_get (items q) f = None \<Longrightarrow>
      items_get (items (fst (forLoop fsv fl q r))) f = None" for q fl
    by (induction fl arbitrary: q)
      (simp_all add: afterLoop_def finallyBlock_def notifyTokenUpdate_def)
  have a: "forLoop fsv (f # rest) p r
        = forLoop fsv rest (p\<lparr>items := items_delete (items p) f\<rparr>) r"
    if "calculationVersion r = currentTokenCalculationVersion p" "\<not> existsSync fsv f"
    using that by simp
  have b: "resume fsv encode p r
        = forLoop fsv (remaining r)
            (if readFile fsv f = Inl ENOENT then p\<lparr>items := items_delete (items p) f\<rparr> else p) r"
    if "phase r = AwaitRead f" "fileFails fsv encode f"
    using that
    by (auto simp: resume_def resumeRead_def fileFails_def split: sum.splits)
  show ?thesis
    by (auto simp: a b forLoop_running gone simp del: forLoop.simps)
qed

theorem per_file_errors_are_skipped_witness:
  "calculationVersion exampleRun = currentTokenCalculationVersion exampleProvider
   \<and> \<not> existsSync oneGone ''/w/src/a.ts''
   \<and> phase (snd (forLoop oneGone [''/w/src/a.ts'', ''/w/src/b.ts''] exampleProvider exampleRun))
       = AwaitRead ''/w/src/b.ts''
   \<and> items_get (items (fst (forLoop oneGone [''/w/src/a.ts'', ''/w/src/b.ts'']
                               exampleProvider exampleRun))) ''/w/src/a.ts'' = None
   \<and> phase exampleRun = AwaitRead ''/w/src/a.ts''
   \<and> fileFails oneGone exampleEncode ''/w/src/a.ts''
   \<and> readFile oneGone ''/w/src/a.ts'' = Inl ENOENT
   \<and> phase (snd (resume oneGone exampleEncode exampleProvider exampleRun))
       = AwaitRead ''/w/src/b.ts''
   \<and> runningTokenCount (snd (resume oneGone exampleEncode exampleProvider exampleRun)) = 0
   \<and> items_get (items (fst (resume oneGone exampleEncode exampleProvider exampleRun)))
        ''/w/src/a.ts'' = None"
proof -
  have a: "calculationVersion exampleRun = currentTokenCalculationVersion exampleProvider"
    and b: "\<not> existsSync oneGone ''/w/src/a.ts''"
    and c: "phase exampleRun = AwaitRead ''/w/src/a.ts''"
    and d: "fileFails oneGone exampleEncode ''/w/src/a.ts''"
    and e: "readFile oneGone ''/w/src/a.ts'' = Inl ENOENT"
    and f: "runningTokenCount exampleRun = 0"
    by (simp_all add: oneGone_def example_defs fileFails_def)
  have g: "phase (snd (forLoop oneGone [''/w/src/a.ts'', ''/w/src/b.ts''] exampleProvider
                         exampleRun)) = AwaitRead ''/w/src/b.ts''"
    and h: "phase (snd (resume oneGone exampleEncode exampleProvider exampleRun))
              = AwaitRead ''/w/src/b.ts''"
    by (simp_all add: oneGone_def example_defs recount_defs)
  note t = per_file_errors_are_skipped
         [of exampleRun exampleProvider oneGone "''/w/src/a.ts''" "[''/w/src/b.ts'']"
            exampleEncode]
  from t a b
  have i: "items_get (items (fst (forLoop oneGone [''/w/src/a.ts'', ''/w/src/b.ts'']
                               exampleProvider exampleRun))) ''/w/src/a.ts'' = None"
    by blast
  from t c d
  have "runningTokenCount (snd (resume oneGone exampleEncode exampleProvider exampleRun))
          = runningTokenCount exampleRun"
    by blast
  with f
  have j: "runningTokenCount (snd (resume oneGone exampleEncode exampleProvider exampleRun)) = 0"
    by simp
  from t c d e
  have k: "items_get (items (fst (resume oneGone exampleEncode exampleProvider exampleRun)))
           ''/w/src/a.ts'' = None"
    by blast
  note i j k
  with a b c d e g h show ?thesis by blast
qed

section \<open>The cascade of a directory toggle\<close>












section \<open>Toggling twice\<close>













end
